theory Spec2Isabelle
  imports Main "HOL-Library.Sublist" "HOL-Library.Multiset"
begin

section \<open>Python strings\<close>

text \<open>
  A Python \<open>str\<close> is modelled as a HOL \<open>string\<close>: a list of characters whose code
  points lie below 256. The string methods used by \<open>core.py\<close> are written out for that
  range: \<open>str.lower\<close>, \<open>str.split\<close> without arguments, \<open>str.join\<close>,
  \<open>str.replace\<close> and the substring test \<open>a in b\<close>.
\<close>

definition is_upper_code :: "nat \<Rightarrow> bool" where
  "is_upper_code n = ((65 \<le> n \<and> n \<le> 90) \<or> (192 \<le> n \<and> n \<le> 222 \<and> n \<noteq> 215))"

definition lower_char :: "char \<Rightarrow> char" where
  "lower_char c =
     (if is_upper_code (of_char c) then char_of (of_char c + (32::nat)) else c)"

definition lower :: "string \<Rightarrow> string" where
  "lower s = map lower_char s"

definition is_space_code :: "nat \<Rightarrow> bool" where
  "is_space_code n = ((9 \<le> n \<and> n \<le> 13) \<or> (28 \<le> n \<and> n \<le> 32) \<or> n = 133 \<or> n = 160)"

definition is_space :: "char \<Rightarrow> bool" where
  "is_space c = is_space_code (of_char c)"

text \<open>\<open>s.split()\<close>: maximal runs of non-whitespace characters, in order.\<close>

function split_ws :: "string \<Rightarrow> string list" where
  "split_ws [] = []"
| "split_ws (c # cs) =
     (if is_space c then split_ws cs
      else (c # takeWhile (\<lambda>x. \<not> is_space x) cs) #
           split_ws (dropWhile (\<lambda>x. \<not> is_space x) cs))"
  by pat_completeness auto
termination
  by (relation "measure length") (auto simp: less_Suc_eq_le length_dropWhile_le)

text \<open>\<open>sep.join(xs)\<close>.\<close>

fun join :: "string \<Rightarrow> string list \<Rightarrow> string" where
  "join sep [] = []"
| "join sep [x] = x"
| "join sep (x # y # ys) = x @ sep @ join sep (y # ys)"

text \<open>\<open>p in s\<close> for two strings: \<open>p\<close> occurs in \<open>s\<close> as a contiguous block.\<close>

fun is_substr :: "string \<Rightarrow> string \<Rightarrow> bool" where
  "is_substr p [] = (p = [])"
| "is_substr p (c # cs) = (prefix p (c # cs) \<or> is_substr p cs)"

text \<open>
  \<open>s.replace(old, new)\<close>: the occurrences of \<open>old\<close> are replaced from left to right,
  without overlap. With an empty \<open>old\<close> Python inserts \<open>new\<close> before every character
  and at the end.
\<close>

function replace :: "string \<Rightarrow> string \<Rightarrow> string \<Rightarrow> string" where
  "replace old new [] = (if old = [] then new else [])"
| "replace old new (c # cs) =
     (if old = [] then new @ c # replace old new cs
      else if prefix old (c # cs) then new @ replace old new (drop (length old) (c # cs))
      else c # replace old new cs)"
  by pat_completeness auto
termination
  by (relation "measure (\<lambda>(old, new, s). length s)") auto

section \<open>Compliance classifier\<close>

record compliance =
  fips :: bool
  stig :: bool

definition check_compliance :: "string list \<Rightarrow> compliance" where
  "check_compliance tags =
     (let tags_lower = map lower tags;
          is_fips = list_ex (\<lambda>t. is_substr ''-fips'' t) tags_lower;
          is_stig = list_ex (\<lambda>t. is_substr ''stig'' t) tags_lower
      in \<lparr> fips = is_fips, stig = is_stig \<rparr>)"

section \<open>Similarity scorer\<close>

text \<open>
  \<open>find_matches\<close> scores with \<open>fuzz.WRatio\<close> and \<open>fuzz.partial_ratio\<close> and selects
  with \<open>process.extract\<close>. All three belong to the library \<open>fuzzywuzzy\<close>, which is not
  part of the repository. The two scorers are parameters of the embedding
  (\<open>wratio\<close>, \<open>pratio\<close>), so that what is proved about \<open>find_matches\<close> holds for every
  scorer. The selection and one concrete partial ratio are modelled below.
\<close>

type_synonym scorer = "string \<Rightarrow> string \<Rightarrow> int"

text \<open>Sorting by descending score, stable as Python's \<open>sorted(..., reverse=True)\<close>.\<close>

definition sort_by_score :: "(string \<times> int) list \<Rightarrow> (string \<times> int) list" where
  "sort_by_score ms = sort_key (\<lambda>m. - snd m) ms"

text \<open>
  Modelled from the spec: \<open>process.extract(query, choices, limit, scorer)\<close> is library code
  that is not under src/. Section 4.3, step 2: for every catalog name compute
  \<open>score(normalizedQuery, name)\<close> and retain at most the top \<open>limit\<close> by score, the scorer's
  input order breaking ties.
\<close>

definition process_extract :: "scorer \<Rightarrow> string \<Rightarrow> string list \<Rightarrow> nat \<Rightarrow> (string \<times> int) list" where
  "process_extract score query choices limit =
     take limit (sort_by_score (map (\<lambda>c. (c, score query c)) choices))"

text \<open>Length of a longest common subsequence.\<close>

fun lcs :: "string \<Rightarrow> string \<Rightarrow> nat" where
  "lcs [] ys = 0"
| "lcs (x # xs) [] = 0"
| "lcs (x # xs) (y # ys) =
     (if x = y then Suc (lcs xs ys) else max (lcs xs (y # ys)) (lcs (x # xs) ys))"

text \<open>\<open>round(p / q)\<close> for \<open>q > 0\<close>, a tie going to the even neighbour as in Python 3.\<close>

definition round_div :: "nat \<Rightarrow> nat \<Rightarrow> nat" where
  "round_div p q =
     (if 2 * (p mod q) > q \<or> (2 * (p mod q) = q \<and> odd (p div q)) then p div q + 1
      else p div q)"

text \<open>
  Modelled from the spec: \<open>fuzz.ratio\<close> is library code that is not under src/.
  Section 4.2 allows any edit-distance-based ratio with identical strings scoring 100;
  this is the Levenshtein-derived one, \<open>100 * 2 * M / (|a| + |b|)\<close> rounded, \<open>M\<close> the
  number of matched characters. An empty argument scores 0.
\<close>

definition ratio :: scorer where
  "ratio a b =
     (if a = [] \<or> b = [] then 0
      else int (round_div (200 * lcs a b) (length a + length b)))"

definition windows :: "nat \<Rightarrow> string \<Rightarrow> string list" where
  "windows n s = map (\<lambda>i. take n (drop i s)) [0 ..< Suc (length s - n)]"

text \<open>
  Modelled from the spec: \<open>fuzz.partial_ratio\<close> is library code that is not under src/.
  Section 4.2: the best ratio achieved by aligning the shorter string against any
  equal-length window of the longer string.
\<close>

definition partial_ratio :: scorer where
  "partial_ratio a b =
     (let shorter = (if length a \<le> length b then a else b);
          longer = (if length a \<le> length b then b else a)
      in foldr max (map (ratio shorter) (windows (length shorter) longer)) 0)"

section \<open>Candidate filter and ranker\<close>

text \<open>A catalog \<open>dict[str, list[str]]\<close> in insertion order; \<open>catalog_get\<close> is \<open>.get(name, [])\<close>.\<close>

type_synonym catalog = "(string \<times> string list) list"

definition catalog_get :: "catalog \<Rightarrow> string \<Rightarrow> string list" where
  "catalog_get cat name = (case map_of cat name of None \<Rightarrow> [] | Some tags \<Rightarrow> tags)"

definition aliases :: "(string \<times> string) list" where
  "aliases = [(''.net'', ''dotnet'')]"

fun apply_aliases :: "(string \<times> string) list \<Rightarrow> string \<Rightarrow> string" where
  "apply_aliases [] query = query"
| "apply_aliases ((k, v) # kvs) query =
     apply_aliases kvs (if is_substr k query then replace k v query else query)"

definition stop_words :: "string set" where
  "stop_words = {''runtime'', ''sdk'', ''cli'', ''agent'', ''operator'', ''server'',
                 ''client'', ''driver'', ''plugin'', ''controller''}"

text \<open>The query after lowercasing and alias substitution (lines 142 to 151).\<close>

definition normalize_query :: "string \<Rightarrow> string" where
  "normalize_query input_image = apply_aliases aliases (lower input_image)"

text \<open>\<open>core_name\<close> of a normalized query (lines 157 to 159).\<close>

definition core_name_of :: "string \<Rightarrow> string" where
  "core_name_of query =
     (let query_parts = split_ws query;
          core_parts = filter (\<lambda>p. p \<notin> stop_words) query_parts
      in if core_parts \<noteq> [] then join '' '' core_parts else query)"

definition name_clean_of :: "string \<Rightarrow> string" where
  "name_clean_of name = lower (replace ''_'' '' '' (replace ''-'' '' '' name))"

text \<open>Lines 169 to 173: the candidate is skipped by the core-name check.\<close>

definition core_rule_discards :: "scorer \<Rightarrow> string \<Rightarrow> string \<Rightarrow> bool" where
  "core_rule_discards pratio core_name name_clean =
     (if core_name \<noteq> [] \<and> length core_name > 2 then
        (if \<not> is_substr core_name name_clean then pratio core_name name_clean < 80
         else False)
      else False)"

definition keywords_to_enforce :: "string list" where
  "keywords_to_enforce = [''cli'', ''sdk'']"

text \<open>Lines 176 to 180: the first loop over the enforced keywords.\<close>

definition should_continue :: "string list \<Rightarrow> string \<Rightarrow> bool" where
  "should_continue query_parts name_clean =
     list_ex (\<lambda>kw. kw \<in> set query_parts \<and> \<not> is_substr kw name_clean) keywords_to_enforce"

text \<open>Lines 186 to 191: the second loop, over the tag text.\<close>

definition all_keywords_found_in_tags :: "string list \<Rightarrow> string \<Rightarrow> string \<Rightarrow> bool" where
  "all_keywords_found_in_tags query_parts name_clean tags_str =
     (\<not> list_ex (\<lambda>kw. kw \<in> set query_parts \<and>
                        \<not> is_substr kw name_clean \<and> \<not> is_substr kw tags_str)
          keywords_to_enforce)"

text \<open>Lines 175 to 194: the candidate is skipped by the keyword check.\<close>

definition keyword_rule_discards :: "string list \<Rightarrow> string \<Rightarrow> string list \<Rightarrow> bool" where
  "keyword_rule_discards query_parts name_clean tags =
     (if should_continue query_parts name_clean then
        (let tags_str = lower (join '' '' tags)
         in \<not> all_keywords_found_in_tags query_parts name_clean tags_str)
      else False)"

text \<open>The loop of lines 164 to 196 over the retained matches.\<close>

fun filter_matches ::
  "scorer \<Rightarrow> catalog \<Rightarrow> string \<Rightarrow> string list \<Rightarrow> (string \<times> int) list \<Rightarrow> (string \<times> int) list"
where
  "filter_matches pratio cat core_name query_parts [] = []"
| "filter_matches pratio cat core_name query_parts ((name, score) # ms) =
     (if score < 85 then filter_matches pratio cat core_name query_parts ms
      else if core_rule_discards pratio core_name (name_clean_of name)
        then filter_matches pratio cat core_name query_parts ms
      else if keyword_rule_discards query_parts (name_clean_of name) (catalog_get cat name)
        then filter_matches pratio cat core_name query_parts ms
      else (name, score) # filter_matches pratio cat core_name query_parts ms)"

definition find_matches :: "scorer \<Rightarrow> scorer \<Rightarrow> string \<Rightarrow> catalog \<Rightarrow> string list" where
  "find_matches wratio pratio input_image cat =
     (let catalog_images = map fst cat;
          query = normalize_query input_image;
          query_parts = split_ws query;
          core_name = core_name_of query;
          matches = process_extract wratio query catalog_images 5;
          results = filter_matches pratio cat core_name query_parts matches
      in map fst (sort_by_score results))"

text \<open>
  The normalizer as the spec words it (section 4.1, steps 4 and 5), to be compared with
  \<open>core_name_of\<close>: \<open>coreTokens\<close> are the tokens without the stop words, or all tokens when
  that leaves nothing, and \<open>coreName\<close> is \<open>coreTokens\<close> joined by single spaces.
\<close>

definition spec_core_tokens :: "string \<Rightarrow> string list" where
  "spec_core_tokens query =
     (let tokens = split_ws query;
          core = filter (\<lambda>p. p \<notin> stop_words) tokens
      in if core = [] then tokens else core)"

definition spec_core_name :: "string \<Rightarrow> string" where
  "spec_core_name query = join '' '' (spec_core_tokens query)"

section \<open>Catalog extractor\<close>

text \<open>
  The value handed to \<open>extract_image_names\<close> is whatever \<open>response.json()\<close> produced:
  any JSON value (numbers restricted to integers here). A JSON object is a Python
  \<open>dict\<close> with string keys, kept in insertion order.
\<close>

datatype json =
    JNull
  | JBool bool
  | JNum int
  | JStr string
  | JList "json list"
  | JObj "(string \<times> json) list"

datatype exn = KeyError | TypeError | AttributeError | DHISearchError

text \<open>\<open>v[key]\<close> with a string key: only a dict can be subscripted by a string.\<close>

fun py_getitem :: "json \<Rightarrow> string \<Rightarrow> exn + json" where
  "py_getitem (JObj kvs) key =
     (case map_of kvs key of None \<Rightarrow> Inl KeyError | Some v \<Rightarrow> Inr v)"
| "py_getitem v key = Inl TypeError"

text \<open>
  \<open>for item in v\<close>: a list yields its elements, a dict its keys, a string its
  characters; \<open>None\<close>, booleans and numbers are not iterable.
\<close>

fun py_iter :: "json \<Rightarrow> exn + json list" where
  "py_iter (JList xs) = Inr xs"
| "py_iter (JObj kvs) = Inr (map (\<lambda>kv. JStr (fst kv)) kvs)"
| "py_iter (JStr s) = Inr (map (\<lambda>c. JStr [c]) s)"
| "py_iter v = Inl TypeError"

text \<open>\<open>v.get(key, default)\<close>: only a dict has the method \<open>get\<close>.\<close>

fun py_get :: "json \<Rightarrow> string \<Rightarrow> json \<Rightarrow> exn + json" where
  "py_get (JObj kvs) key dflt =
     (case map_of kvs key of None \<Rightarrow> Inr dflt | Some v \<Rightarrow> Inr v)"
| "py_get v key dflt = Inl AttributeError"

fun truthy :: "json \<Rightarrow> bool" where
  "truthy JNull = False"
| "truthy (JBool b) = b"
| "truthy (JNum n) = (n \<noteq> 0)"
| "truthy (JStr s) = (s \<noteq> [])"
| "truthy (JList xs) = (xs \<noteq> [])"
| "truthy (JObj kvs) = (kvs \<noteq> [])"

fun hashable :: "json \<Rightarrow> bool" where
  "hashable (JList xs) = False"
| "hashable (JObj kvs) = False"
| "hashable v = True"

text \<open>Equality of dict keys: \<open>True == 1\<close> and \<open>False == 0\<close> in Python.\<close>

fun key_eq :: "json \<Rightarrow> json \<Rightarrow> bool" where
  "key_eq (JBool a) (JNum n) = (n = (if a then 1 else 0))"
| "key_eq (JNum n) (JBool a) = (n = (if a then 1 else 0))"
| "key_eq a b = (a = b)"

text \<open>A dict built by the function: \<open>d.get(k, dflt)\<close> and \<open>d[k] = v\<close> on hashable keys.\<close>

fun dict_get :: "(json \<times> 'v) list \<Rightarrow> json \<Rightarrow> 'v \<Rightarrow> 'v" where
  "dict_get [] k dflt = dflt"
| "dict_get ((k', v') # kvs) k dflt = (if key_eq k' k then v' else dict_get kvs k dflt)"

fun dict_set :: "(json \<times> 'v) list \<Rightarrow> json \<Rightarrow> 'v \<Rightarrow> (json \<times> 'v) list" where
  "dict_set [] k v = [(k, v)]"
| "dict_set ((k', v') # kvs) k v =
     (if key_eq k' k then (k', v) # kvs else (k', v') # dict_set kvs k v)"

type_synonym image_data = "(json \<times> json) list"
type_synonym stats = "(json \<times> int) list"

text \<open>The body of the loop, lines 117 to 123, on the two dicts built so far.\<close>

definition extract_item :: "json \<Rightarrow> image_data \<times> stats \<Rightarrow> exn + image_data \<times> stats" where
  "extract_item item st =
     (case py_get item ''name'' JNull of
        Inl e \<Rightarrow> Inl e
      | Inr name \<Rightarrow>
     (case py_get item ''type'' (JStr ''Unknown'') of
        Inl e \<Rightarrow> Inl e
      | Inr item_type \<Rightarrow>
          if truthy name then
            (if \<not> hashable item_type then Inl TypeError
             else
               (let stats' = dict_set (snd st) item_type (dict_get (snd st) item_type 0 + 1)
                in case py_get item ''tagNames'' (JList []) of
                     Inl e \<Rightarrow> Inl e
                   | Inr t \<Rightarrow>
                       (let tags = (if truthy t then t else JList [])
                        in if \<not> hashable name then Inl TypeError
                           else Inr (dict_set (fst st) name tags, stats'))))
          else Inr st))"

fun extract_loop :: "json list \<Rightarrow> image_data \<times> stats \<Rightarrow> exn + image_data \<times> stats" where
  "extract_loop [] st = Inr st"
| "extract_loop (item # items) st =
     (case extract_item item st of
        Inl e \<Rightarrow> Inl e
      | Inr st' \<Rightarrow> extract_loop items st')"

text \<open>The \<open>try\<close> block, lines 115 to 123.\<close>

definition extract_try :: "json \<Rightarrow> exn + image_data \<times> stats" where
  "extract_try catalog_data =
     (case py_getitem catalog_data ''data'' of
        Inl e \<Rightarrow> Inl e
      | Inr d \<Rightarrow>
     (case py_getitem d ''dhiListRepositories'' of
        Inl e \<Rightarrow> Inl e
      | Inr r \<Rightarrow>
     (case py_getitem r ''items'' of
        Inl e \<Rightarrow> Inl e
      | Inr v \<Rightarrow>
     (case py_iter v of
        Inl e \<Rightarrow> Inl e
      | Inr items \<Rightarrow> extract_loop items ([], [])))))"

text \<open>\<open>except (KeyError, TypeError)\<close>: any other exception leaves the function as it is.\<close>

definition extract_image_names :: "json \<Rightarrow> exn + image_data \<times> stats" where
  "extract_image_names catalog_data =
     (case extract_try catalog_data of
        Inl KeyError \<Rightarrow> Inl DHISearchError
      | Inl TypeError \<Rightarrow> Inl DHISearchError
      | Inl e \<Rightarrow> Inl e
      | Inr res \<Rightarrow> Inr res)"

text \<open>The response envelope around a list of items.\<close>

definition envelope :: "json \<Rightarrow> json" where
  "envelope items = JObj [(''data'', JObj [(''dhiListRepositories'', JObj [(''items'', items)])])]"

text \<open>
  A well-formed raw item (section 4.4): a record whose \<open>name\<close>, when present, is a string
  or null, whose \<open>type\<close>, when present, is a string, and whose \<open>tagNames\<close>, when present,
  is a list of strings or null.
\<close>

fun is_str :: "json \<Rightarrow> bool" where
  "is_str (JStr s) = True"
| "is_str v = False"

fun is_str_list :: "json \<Rightarrow> bool" where
  "is_str_list (JList xs) = list_all is_str xs"
| "is_str_list v = False"

fun well_formed_item :: "json \<Rightarrow> bool" where
  "well_formed_item (JObj kvs) =
     ((case map_of kvs ''name'' of None \<Rightarrow> True | Some v \<Rightarrow> is_str v \<or> v = JNull) \<and>
      (case map_of kvs ''type'' of None \<Rightarrow> True | Some v \<Rightarrow> is_str v) \<and>
      (case map_of kvs ''tagNames'' of None \<Rightarrow> True | Some v \<Rightarrow> is_str_list v \<or> v = JNull))"
| "well_formed_item v = False"

text \<open>An item has a non-empty name: \<open>item.get('name')\<close> is truthy.\<close>

fun has_name :: "json \<Rightarrow> bool" where
  "has_name (JObj kvs) = (case map_of kvs ''name'' of None \<Rightarrow> False | Some v \<Rightarrow> truthy v)"
| "has_name v = False"

section \<open>The ranker on untyped values\<close>

text \<open>
  \<open>find_matches\<close> once more, on the values Python really passes: the query and the
  catalog are arbitrary values, the library scorers may raise, and every operation of
  lines 141 to 199 that can raise has its failing branch.
\<close>

type_synonym raising_scorer = "string \<Rightarrow> string \<Rightarrow> exn + int"

text \<open>\<open>v.keys()\<close> and \<open>v.lower()\<close>: methods of a dict and of a string only.\<close>

fun py_keys :: "json \<Rightarrow> exn + string list" where
  "py_keys (JObj kvs) = Inr (map fst kvs)"
| "py_keys v = Inl AttributeError"

fun py_lower :: "json \<Rightarrow> exn + string" where
  "py_lower (JStr s) = Inr (lower s)"
| "py_lower v = Inl AttributeError"

text \<open>The elements handed to \<open>str.join\<close> must all be strings.\<close>

fun py_strs :: "json list \<Rightarrow> exn + string list" where
  "py_strs [] = Inr []"
| "py_strs (JStr s # vs) = (case py_strs vs of Inl e \<Rightarrow> Inl e | Inr ss \<Rightarrow> Inr (s # ss))"
| "py_strs (v # vs) = Inl TypeError"

text \<open>\<open>sep.join(v)\<close>: \<open>v\<close> is iterated as in a \<open>for\<close> loop.\<close>

definition py_join :: "string \<Rightarrow> json \<Rightarrow> exn + string" where
  "py_join sep v =
     (case py_iter v of
        Inl e \<Rightarrow> Inl e
      | Inr vs \<Rightarrow> (case py_strs vs of Inl e \<Rightarrow> Inl e | Inr ss \<Rightarrow> Inr (join sep ss)))"

fun score_all :: "raising_scorer \<Rightarrow> string \<Rightarrow> string list \<Rightarrow> exn + (string \<times> int) list" where
  "score_all score query [] = Inr []"
| "score_all score query (c # cs) =
     (case score query c of
        Inl e \<Rightarrow> Inl e
      | Inr s \<Rightarrow> (case score_all score query cs of
                    Inl e \<Rightarrow> Inl e
                  | Inr ms \<Rightarrow> Inr ((c, s) # ms)))"

text \<open>
  Modelled from the spec: \<open>process.extract\<close> as in \<open>process_extract\<close>, with a scorer that
  may raise; what the scorer raises leaves \<open>process.extract\<close>.
\<close>

definition process_extract_dyn ::
  "raising_scorer \<Rightarrow> string \<Rightarrow> string list \<Rightarrow> nat \<Rightarrow> exn + (string \<times> int) list" where
  "process_extract_dyn score query choices limit =
     (case score_all score query choices of
        Inl e \<Rightarrow> Inl e
      | Inr ms \<Rightarrow> Inr (take limit (sort_by_score ms)))"

text \<open>Lines 169 to 173; the result says whether the candidate is skipped.\<close>

definition core_rule_dyn :: "raising_scorer \<Rightarrow> string \<Rightarrow> string \<Rightarrow> exn + bool" where
  "core_rule_dyn pratio core_name name_clean =
     (if core_name \<noteq> [] \<and> length core_name > 2 then
        (if \<not> is_substr core_name name_clean then
           (case pratio core_name name_clean of
              Inl e \<Rightarrow> Inl e
            | Inr core_score \<Rightarrow> Inr (core_score < 80))
         else Inr False)
      else Inr False)"

text \<open>Lines 175 to 194; the result says whether the candidate is skipped.\<close>

definition keyword_rule_dyn :: "string list \<Rightarrow> string \<Rightarrow> json \<Rightarrow> string \<Rightarrow> exn + bool" where
  "keyword_rule_dyn query_parts name_clean cat name =
     (if should_continue query_parts name_clean then
        (case py_get cat name (JList []) of
           Inl e \<Rightarrow> Inl e
         | Inr tags \<Rightarrow>
             (case py_join '' '' tags of
                Inl e \<Rightarrow> Inl e
              | Inr joined \<Rightarrow>
                  Inr (\<not> all_keywords_found_in_tags query_parts name_clean (lower joined))))
      else Inr False)"

fun filter_matches_dyn ::
  "raising_scorer \<Rightarrow> json \<Rightarrow> string \<Rightarrow> string list \<Rightarrow> (string \<times> int) list
     \<Rightarrow> exn + (string \<times> int) list"
where
  "filter_matches_dyn pratio cat core_name query_parts [] = Inr []"
| "filter_matches_dyn pratio cat core_name query_parts ((name, score) # ms) =
     (if score < 85 then filter_matches_dyn pratio cat core_name query_parts ms
      else
        (case core_rule_dyn pratio core_name (name_clean_of name) of
           Inl e \<Rightarrow> Inl e
         | Inr True \<Rightarrow> filter_matches_dyn pratio cat core_name query_parts ms
         | Inr False \<Rightarrow>
             (case keyword_rule_dyn query_parts (name_clean_of name) cat name of
                Inl e \<Rightarrow> Inl e
              | Inr True \<Rightarrow> filter_matches_dyn pratio cat core_name query_parts ms
              | Inr False \<Rightarrow>
                  (case filter_matches_dyn pratio cat core_name query_parts ms of
                     Inl e \<Rightarrow> Inl e
                   | Inr rs \<Rightarrow> Inr ((name, score) # rs)))))"

definition find_matches_dyn ::
  "raising_scorer \<Rightarrow> raising_scorer \<Rightarrow> json \<Rightarrow> json \<Rightarrow> exn + string list" where
  "find_matches_dyn wratio pratio input_image cat =
     (case py_keys cat of
        Inl e \<Rightarrow> Inl e
      | Inr catalog_images \<Rightarrow>
     (case py_lower input_image of
        Inl e \<Rightarrow> Inl e
      | Inr lowered \<Rightarrow>
          (let query = apply_aliases aliases lowered;
               query_parts = split_ws query;
               core_name = core_name_of query
           in case process_extract_dyn wratio query catalog_images 5 of
                Inl e \<Rightarrow> Inl e
              | Inr matches \<Rightarrow>
                  (case filter_matches_dyn pratio cat core_name query_parts matches of
                     Inl e \<Rightarrow> Inl e
                   | Inr results \<Rightarrow> Inr (map fst (sort_by_score results))))))"

text \<open>A catalog \<open>dict[str, list[str]]\<close> as a Python value.\<close>

definition catalog_json :: "catalog \<Rightarrow> json" where
  "catalog_json cat = JObj (map (\<lambda>kv. (fst kv, JList (map JStr (snd kv)))) cat)"

section \<open>Facts about the string operations\<close>

lemma is_substr_iff: "is_substr p s \<longleftrightarrow> (\<exists>u v. s = u @ p @ v)"
proof (induction s)
  case Nil
  then show ?case by auto
next
  case (Cons c cs)
  show ?case
  proof
    assume "is_substr p (c # cs)"
    then consider "prefix p (c # cs)" | "is_substr p cs" by auto
    then show "\<exists>u v. c # cs = u @ p @ v"
    proof cases
      case 1
      then obtain v where "c # cs = p @ v" by (auto simp: prefix_def)
      then have "c # cs = [] @ p @ v" by simp
      then show ?thesis by blast
    next
      case 2
      with Cons.IH obtain u v where "cs = u @ p @ v" by blast
      then have "c # cs = (c # u) @ p @ v" by simp
      then show ?thesis by blast
    qed
  next
    assume "\<exists>u v. c # cs = u @ p @ v"
    then obtain u v where uv: "c # cs = u @ p @ v" by blast
    show "is_substr p (c # cs)"
    proof (cases u)
      case Nil
      with uv have "prefix p (c # cs)" by (simp add: prefix_def)
      then show ?thesis by simp
    next
      case (Cons a u')
      with uv have "cs = u' @ p @ v" by simp
      with Cons.IH have "is_substr p cs" by blast
      then show ?thesis by simp
    qed
  qed
qed

lemma lower_char_idem: "lower_char (lower_char c) = lower_char c"
proof (cases "is_upper_code (of_char c)")
  case True
  then have "\<not> is_upper_code (of_char (char_of (of_char c + (32::nat)) :: char))"
    by (auto simp: is_upper_code_def)
  with True show ?thesis by (simp add: lower_char_def)
next
  case False
  then show ?thesis by (simp add: lower_char_def)
qed

lemma lower_fixed_iff: "lower s = s \<longleftrightarrow> (\<forall>c \<in> set s. lower_char c = c)"
  by (simp add: lower_def map_eq_conv [where g = "\<lambda>x. x", simplified])

lemma lower_lower: "lower (lower s) = lower s"
  by (simp add: lower_def lower_char_idem)

lemma lower_char_space: "lower_char (CHR '' '') = CHR '' ''"
  by (simp add: lower_char_def is_upper_code_def)

lemma is_space_space: "is_space (CHR '' '')"
  by (simp add: is_space_def is_space_code_def)

subsection \<open>Tokens\<close>

lemma split_ws_token:
  "t \<in> set (split_ws s) \<Longrightarrow> t \<noteq> [] \<and> (\<forall>c \<in> set t. \<not> is_space c) \<and> (\<exists>u v. s = u @ t @ v)"
proof (induction s arbitrary: t rule: split_ws.induct)
  case 1
  then show ?case by simp
next
  case (2 c cs)
  show ?case
  proof (cases "is_space c")
    case True
    from True "2.prems" have "t \<in> set (split_ws cs)" by simp
    from "2.IH"(1) [OF True this]
    have "t \<noteq> [] \<and> (\<forall>c \<in> set t. \<not> is_space c) \<and> (\<exists>u v. cs = u @ t @ v)" .
    then obtain u v where "t \<noteq> []" "\<forall>c \<in> set t. \<not> is_space c" "cs = u @ t @ v" by blast
    then have "c # cs = (c # u) @ t @ v" by simp
    with \<open>t \<noteq> []\<close> \<open>\<forall>c \<in> set t. \<not> is_space c\<close> show ?thesis by blast
  next
    case False
    let ?tok = "c # takeWhile (\<lambda>x. \<not> is_space x) cs"
    let ?rest = "dropWhile (\<lambda>x. \<not> is_space x) cs"
    have whole: "c # cs = ?tok @ ?rest" by simp
    from False "2.prems" have "t = ?tok \<or> t \<in> set (split_ws ?rest)" by simp
    then consider "t = ?tok" | "t \<in> set (split_ws ?rest)" by blast
    then show ?thesis
    proof cases
      case 1
      have "\<forall>x \<in> set ?tok. \<not> is_space x" using False by (auto dest: set_takeWhileD)
      moreover have "c # cs = [] @ ?tok @ ?rest" by simp
      ultimately show ?thesis using 1 by blast
    next
      case 2
      with "2.IH"(2) [OF False 2] obtain u v
        where t: "t \<noteq> []" "\<forall>c \<in> set t. \<not> is_space c" and r: "?rest = u @ t @ v" by blast
      from whole r have "c # cs = (?tok @ u) @ t @ v" by simp
      with t show ?thesis by blast
    qed
  qed
qed

lemma split_ws_single:
  assumes "t \<noteq> []" "\<forall>c \<in> set t. \<not> is_space c"
  shows "split_ws t = [t]"
proof -
  from assms obtain c cs where t: "t = c # cs" by (cases t) auto
  with assms have "\<not> is_space c" "\<forall>x \<in> set cs. \<not> is_space x" by auto
  then have "split_ws (c # cs) = [c # cs]"
    by (simp add: takeWhile_eq_all_conv [THEN iffD2] dropWhile_eq_Nil_conv [THEN iffD2])
  with t show ?thesis by simp
qed

lemma split_ws_token_space:
  assumes "t \<noteq> []" "\<forall>c \<in> set t. \<not> is_space c"
  shows "split_ws (t @ CHR '' '' # r) = t # split_ws r"
proof -
  from assms obtain c cs where t: "t = c # cs" by (cases t) auto
  with assms have c: "\<not> is_space c" and cs: "\<forall>x \<in> set cs. \<not> is_space x" by auto
  from cs have "takeWhile (\<lambda>x. \<not> is_space x) (cs @ CHR '' '' # r) = cs"
    by (simp add: takeWhile_append2 is_space_space)
  moreover from cs have "dropWhile (\<lambda>x. \<not> is_space x) (cs @ CHR '' '' # r) = CHR '' '' # r"
    by (simp add: dropWhile_append2 is_space_space)
  ultimately show ?thesis using t c by (simp add: is_space_space)
qed

lemma split_ws_join:
  "\<forall>t \<in> set ts. t \<noteq> [] \<and> (\<forall>c \<in> set t. \<not> is_space c) \<Longrightarrow> split_ws (join '' '' ts) = ts"
proof (induction "'' ''" ts rule: join.induct)
  case 1
  then show ?case by simp
next
  case (2 x)
  then show ?case by (simp add: split_ws_single)
next
  case (3 x y ys)
  then have "split_ws (join '' '' (y # ys)) = y # ys" by simp
  moreover from 3 have "x \<noteq> []" "\<forall>c \<in> set x. \<not> is_space c" by auto
  ultimately show ?case using split_ws_token_space [of x "join '' '' (y # ys)"] by simp
qed

lemma set_join: "set (join sep ts) \<subseteq> set sep \<union> (\<Union>t \<in> set ts. set t)"
  by (induction sep ts rule: join.induct) auto


lemma is_substr_skip_prefix:
  "d \<notin> set xs \<Longrightarrow> is_substr (d # rest) (xs @ r) = is_substr (d # rest) r"
  by (induction xs) auto

lemma is_substr_sep:
  assumes "sp \<notin> set p" "p \<noteq> []" "is_substr p (x @ sp # r)"
  shows "is_substr p x \<or> is_substr p r"
  using assms
proof (induction x)
  case Nil
  then show ?case by (cases p) auto
next
  case (Cons c x)
  from Cons.prems(3) consider "prefix p ((c # x) @ sp # r)" | "is_substr p (x @ sp # r)"
    by auto
  then show ?case
  proof cases
    case 1
    with prefix_append [of p "c # x" "sp # r"]
    have "prefix p (c # x) \<or> (\<exists>us. p = (c # x) @ us \<and> prefix us (sp # r))" by simp
    then consider "prefix p (c # x)" | us where "p = (c # x) @ us" "prefix us (sp # r)"
      by blast
    then show ?thesis
    proof cases
      case 1
      then show ?thesis by simp
    next
      case 2
      with Cons.prems(1) have "us = []" by (cases us) auto
      with 2 have "prefix p (c # x)" by simp
      then show ?thesis by simp
    qed
  next
    case 2
    with Cons show ?thesis by auto
  qed
qed

lemma is_substr_join:
  "sp \<notin> set p \<Longrightarrow> p \<noteq> [] \<Longrightarrow> is_substr p (join [sp] ts) \<Longrightarrow> \<exists>t \<in> set ts. is_substr p t"
proof (induction "[sp]" ts rule: join.induct)
  case 1
  then show ?case by simp
next
  case (2 x)
  then show ?case by simp
next
  case (3 x y ys)
  from "3.prems" have "is_substr p (x @ sp # join [sp] (y # ys))" by simp
  with "3.prems" have "is_substr p x \<or> is_substr p (join [sp] (y # ys))"
    by (blast dest: is_substr_sep)
  with 3 show ?case by auto
qed

lemma is_substr_trans: "is_substr p t \<Longrightarrow> is_substr t s \<Longrightarrow> is_substr p s"
proof -
  assume "is_substr p t" "is_substr t s"
  then obtain u v u' v' where "t = u @ p @ v" "s = u' @ t @ v'"
    by (auto simp: is_substr_iff)
  then have "s = (u' @ u) @ p @ (v @ v')" by simp
  then show ?thesis unfolding is_substr_iff by blast
qed

lemma split_ws_token_substr: "t \<in> set (split_ws s) \<Longrightarrow> is_substr t s"
  using split_ws_token [of t s] by (simp add: is_substr_iff)

subsection \<open>Replacement\<close>


lemma set_replace: "old \<noteq> [] \<Longrightarrow> set (replace old new s) \<subseteq> set s \<union> set new"
proof (induction old new s rule: replace.induct)
  case (1 old new)
  then show ?case by simp
next
  case (2 old new c cs)
  show ?case
  proof (cases "prefix old (c # cs)")
    case True
    with 2 have "set (replace old new (drop (length old) (c # cs)))
                 \<subseteq> set (drop (length old) (c # cs)) \<union> set new" by simp
    moreover have "set (drop (length old) (c # cs)) \<subseteq> set (c # cs)" by (rule set_drop_subset)
    ultimately show ?thesis using True 2 by auto
  next
    case False
    with 2 show ?thesis by auto
  qed
qed

lemma replace_prefix_back:
  assumes "new = n0 # new'" "n0 \<notin> set r" "d \<notin> set r"
  shows "prefix r (replace (d # orest) new cs) \<Longrightarrow> prefix r cs"
  using assms(2,3)
proof (induction r arbitrary: cs)
  case Nil
  then show ?case by simp
next
  case (Cons e r)
  show ?case
  proof (cases cs)
    case Nil
    with Cons.prems show ?thesis by simp
  next
    case (Cons c' cs')
    show ?thesis
    proof (cases "prefix (d # orest) (c' # cs')")
      case True
      with Cons Cons.prems assms(1) show ?thesis by auto
    next
      case False
      with Cons Cons.prems have "e = c'" "prefix r (replace (d # orest) new cs')" by auto
      with Cons.IH Cons.prems Cons show ?thesis by auto
    qed
  qed
qed

lemma replace_no_occurrence:
  assumes "new = n0 # new'" "n0 \<notin> set rest" "d \<notin> set rest" "d \<notin> set new"
  shows "\<not> is_substr (d # rest) (replace (d # rest) new s)"
proof (induction s rule: length_induct)
  case (1 s)
  show ?case
  proof (cases s)
    case Nil
    then show ?thesis by simp
  next
    case (Cons c cs)
    show ?thesis
    proof (cases "prefix (d # rest) (c # cs)")
      case True
      have "length (drop (length (d # rest)) (c # cs)) < length s" using Cons by simp
      with 1 have "\<not> is_substr (d # rest)
          (replace (d # rest) new (drop (length (d # rest)) (c # cs)))"
        by blast
      then have "\<not> is_substr (d # rest)
          (new @ replace (d # rest) new (drop (length (d # rest)) (c # cs)))"
        by (simp only: is_substr_skip_prefix [OF assms(4)] not_False_eq_True)
      moreover have "replace (d # rest) new (c # cs)
          = new @ replace (d # rest) new (drop (length (d # rest)) (c # cs))"
        using True by auto
      ultimately show ?thesis using Cons by simp
    next
      case False
      have "length cs < length s" using Cons by simp
      with 1 have ih: "\<not> is_substr (d # rest) (replace (d # rest) new cs)" by blast
      have "\<not> prefix (d # rest) (c # replace (d # rest) new cs)"
      proof
        assume "prefix (d # rest) (c # replace (d # rest) new cs)"
        then have "c = d" "prefix rest (replace (d # rest) new cs)" by auto
        with replace_prefix_back [OF assms(1,2,3)] have "prefix rest cs" by blast
        with \<open>c = d\<close> False show False by simp
      qed
      moreover have "replace (d # rest) new (c # cs) = c # replace (d # rest) new cs"
        using False by auto
      ultimately show ?thesis using ih Cons by (simp only: is_substr.simps) blast
    qed
  qed
qed

lemma no_dotnet_alias: "\<not> is_substr ''.net'' (replace ''.net'' ''dotnet'' s)"
  by (rule replace_no_occurrence [where ?n0.0 = "CHR ''d''" and new' = "''otnet''"]) simp_all

section \<open>Compliance classifier: proofs\<close>

lemma check_compliance_fields:
  "fips (check_compliance tags) = (\<exists>t \<in> set tags. is_substr ''-fips'' (lower t))"
  "stig (check_compliance tags) = (\<exists>t \<in> set tags. is_substr ''stig'' (lower t))"
  by (simp_all add: check_compliance_def list_ex_iff)

text \<open>
  C9. For every tag list, \<open>check_compliance\<close> returns \<open>fips = true\<close> exactly when some tag,
  lowercased, contains \<open>-fips\<close>, and \<open>stig = true\<close> exactly when some tag, lowercased,
  contains \<open>stig\<close>; the empty list yields both false; and the result does not change when
  the tags are reordered. The function has no failing branch: it is a total function of
  the tag list.
\<close>

theorem check_compliance_spec:
  "fips (check_compliance tags) = (\<exists>t \<in> set tags. \<exists>u v. lower t = u @ ''-fips'' @ v) \<and>
   stig (check_compliance tags) = (\<exists>t \<in> set tags. \<exists>u v. lower t = u @ ''stig'' @ v) \<and>
   check_compliance [] = \<lparr> fips = False, stig = False \<rparr> \<and>
   (mset tags' = mset tags \<longrightarrow> check_compliance tags' = check_compliance tags)"
proof -
  have "check_compliance tags' = check_compliance tags" if "mset tags' = mset tags"
  proof -
    from that have "set tags' = set tags" by (rule mset_eq_setD)
    then show ?thesis by (simp add: check_compliance_def list_ex_iff)
  qed
  moreover have "check_compliance [] = \<lparr> fips = False, stig = False \<rparr>"
    by (simp add: check_compliance_def)
  ultimately show ?thesis
    by (simp add: check_compliance_fields is_substr_iff)
qed

theorem check_compliance_spec_witness:
  "fips (check_compliance [''7-FIPS-slim'', ''latest'']) \<and>
   \<not> stig (check_compliance [''7-FIPS-slim'', ''latest'']) \<and>
   check_compliance [''latest'', ''7-FIPS-slim''] = check_compliance [''7-FIPS-slim'', ''latest'']"
proof -
  have m: "mset [''latest'', ''7-FIPS-slim''] = mset [''7-FIPS-slim'', ''latest'']"
    by simp
  have f: "fips (check_compliance [''7-FIPS-slim'', ''latest''])"
    by code_simp
  have s: "\<not> stig (check_compliance [''7-FIPS-slim'', ''latest''])"
    by code_simp
  from check_compliance_spec [of "[''7-FIPS-slim'', ''latest'']" "[''latest'', ''7-FIPS-slim'']"] m f s
  show ?thesis by blast
qed

section \<open>Query normalizer: proofs\<close>

lemma lower_char_dotnet: "c \<in> set ''dotnet'' \<Longrightarrow> lower_char c = c"
  by (auto simp: lower_char_def is_upper_code_def)

lemma normalize_query_eq:
  "normalize_query q =
     (if is_substr ''.net'' (lower q) then replace ''.net'' ''dotnet'' (lower q) else lower q)"
  by (simp add: normalize_query_def aliases_def)

lemma normalize_query_lower: "lower (normalize_query q) = normalize_query q"
proof -
  have l: "\<forall>c \<in> set (lower q). lower_char c = c"
    by (simp add: lower_def lower_char_idem)
  have "\<forall>c \<in> set (replace ''.net'' ''dotnet'' (lower q)). lower_char c = c"
  proof
    fix c assume "c \<in> set (replace ''.net'' ''dotnet'' (lower q))"
    with set_replace [of "''.net''" "''dotnet''" "lower q"]
    have "c \<in> set (lower q) \<or> c \<in> set ''dotnet''" by auto
    with l lower_char_dotnet show "lower_char c = c" by blast
  qed
  with l show ?thesis by (simp add: normalize_query_eq lower_fixed_iff)
qed

lemma normalize_query_no_alias: "\<not> is_substr ''.net'' (normalize_query q)"
  by (simp add: normalize_query_eq no_dotnet_alias)

lemma normalize_query_fixed:
  "lower s = s \<Longrightarrow> \<not> is_substr ''.net'' s \<Longrightarrow> normalize_query s = s"
  by (simp add: normalize_query_eq)

lemma core_parts_tokens:
  "\<forall>t \<in> set (filter (\<lambda>p. p \<notin> stop_words) (split_ws s)). t \<noteq> [] \<and> (\<forall>c \<in> set t. \<not> is_space c)"
  using split_ws_token [of _ s] by auto

lemma split_ws_core_parts:
  "split_ws (join '' '' (filter (\<lambda>p. p \<notin> stop_words) (split_ws s)))
     = filter (\<lambda>p. p \<notin> stop_words) (split_ws s)"
  by (rule split_ws_join) (rule core_parts_tokens)

text \<open>
  C8. Stop-word removal is idempotent: for every raw query, normalizing the \<open>coreName\<close>
  obtained from that query and computing its \<open>coreName\<close> yields the same \<open>coreName\<close> again.
\<close>

theorem core_name_idempotent:
  "core_name_of (normalize_query (core_name_of (normalize_query raw)))
     = core_name_of (normalize_query raw)"
proof -
  define q where "q = normalize_query raw"
  define cp where "cp = filter (\<lambda>p. p \<notin> stop_words) (split_ws q)"
  have lq: "lower q = q" and nq: "\<not> is_substr ''.net'' q"
    by (simp_all add: q_def normalize_query_lower normalize_query_no_alias)
  show ?thesis
  proof (cases "cp = []")
    case True
    then have cn: "core_name_of q = q" by (simp add: core_name_of_def cp_def)
    from lq nq have "normalize_query q = q" by (rule normalize_query_fixed)
    with cn show ?thesis by (simp add: q_def)
  next
    case False
    then have cn: "core_name_of q = join '' '' cp" by (simp add: core_name_of_def cp_def)
    have sub: "\<forall>t \<in> set cp. is_substr t q"
      by (auto simp: cp_def intro: split_ws_token_substr)
    have "\<forall>c \<in> set (join '' '' cp). lower_char c = c"
    proof
      fix c assume "c \<in> set (join '' '' cp)"
      with set_join [of "'' ''" cp] consider "c = CHR '' ''" | t where "t \<in> set cp" "c \<in> set t"
        by auto
      then show "lower_char c = c"
      proof cases
        case 1
        then show ?thesis by (simp add: lower_char_space)
      next
        case 2
        with sub have "is_substr t q" by blast
        then obtain u v where "q = u @ t @ v" by (auto simp: is_substr_iff)
        with 2 have "c \<in> set q" by simp
        with lq show ?thesis by (simp add: lower_fixed_iff)
      qed
    qed
    then have l: "lower (join '' '' cp) = join '' '' cp" by (simp add: lower_fixed_iff)
    have n: "\<not> is_substr ''.net'' (join '' '' cp)"
    proof
      assume "is_substr ''.net'' (join '' '' cp)"
      with is_substr_join [of "CHR '' ''" "''.net''" cp]
      obtain t where "t \<in> set cp" "is_substr ''.net'' t" by auto
      with sub have "is_substr ''.net'' q" by (blast intro: is_substr_trans)
      with nq show False by contradiction
    qed
    from l n have nf: "normalize_query (join '' '' cp) = join '' '' cp"
      by (rule normalize_query_fixed)
    have sp: "split_ws (join '' '' cp) = cp"
      unfolding cp_def by (rule split_ws_core_parts)
    have "filter (\<lambda>p. p \<notin> stop_words) cp = cp" by (simp add: cp_def)
    with sp False have "core_name_of (join '' '' cp) = join '' '' cp"
      by (simp add: core_name_of_def)
    with nf cn show ?thesis by (simp add: q_def)
  qed
qed

lemma core_name_tokens: "split_ws (core_name_of query) = spec_core_tokens query"
  by (simp add: core_name_of_def spec_core_tokens_def Let_def split_ws_core_parts)

text \<open>
  C5, as amended. The tokens of \<open>coreName\<close> are always the spec's \<open>coreTokens\<close> (the tokens
  without stop words, or all tokens when that leaves nothing). When some token is not a
  stop word, \<open>coreName\<close> is \<open>coreTokens\<close> joined by single spaces. When every token is a stop
  word (or there is none), \<open>coreName\<close> is the normalized query string itself, with its
  whitespace as written; it equals the joined tokens exactly when the query already is
  its tokens joined by single spaces.
\<close>

theorem core_name_vs_spec:
  "split_ws (core_name_of query) = spec_core_tokens query \<and>
   (filter (\<lambda>p. p \<notin> stop_words) (split_ws query) \<noteq> [] \<longrightarrow>
      core_name_of query = spec_core_name query) \<and>
   (filter (\<lambda>p. p \<notin> stop_words) (split_ws query) = [] \<longrightarrow>
      core_name_of query = query) \<and>
   (core_name_of query = spec_core_name query \<longleftrightarrow>
      filter (\<lambda>p. p \<notin> stop_words) (split_ws query) \<noteq> [] \<or>
      query = join '' '' (split_ws query))"
proof (cases "filter (\<lambda>p. p \<notin> stop_words) (split_ws query) = []")
  case True
  then have "core_name_of query = query" "spec_core_name query = join '' '' (split_ws query)"
    by (simp_all add: core_name_of_def spec_core_name_def spec_core_tokens_def)
  with True core_name_tokens [of query] show ?thesis by simp
next
  case False
  then have "core_name_of query = spec_core_name query"
    by (simp add: core_name_of_def spec_core_name_def spec_core_tokens_def)
  with False core_name_tokens [of query] show ?thesis by simp
qed

theorem core_name_vs_spec_witness:
  "split_ws (core_name_of ''foo  sdk'') = [''foo''] \<and>
   core_name_of ''foo  sdk'' = spec_core_name ''foo  sdk'' \<and>
   core_name_of ''sdk cli'' = spec_core_name ''sdk cli''"
proof -
  have a: "filter (\<lambda>p. p \<notin> stop_words) (split_ws ''foo  sdk'') \<noteq> []" by code_simp
  have b: "spec_core_tokens ''foo  sdk'' = [''foo'']" by code_simp
  have c: "''sdk cli'' = join '' '' (split_ws ''sdk cli'')" by code_simp
  from core_name_vs_spec [of "''foo  sdk''"] a
  have "split_ws (core_name_of ''foo  sdk'') = spec_core_tokens ''foo  sdk''"
    and "core_name_of ''foo  sdk'' = spec_core_name ''foo  sdk''" by blast+
  moreover from core_name_vs_spec [of "''sdk cli''"] c
  have "core_name_of ''sdk cli'' = spec_core_name ''sdk cli''" by blast
  ultimately show ?thesis using b by (simp only: simp_thms)
qed

text \<open>
  C5 as stated fails: for the query \<open>sdk  cli\<close> (two spaces) every token is a stop word,
  the code falls back to the query string, and \<open>coreName\<close> keeps the two spaces, while the
  full token sequence joined by single spaces has one.
\<close>

theorem core_name_counterexample:
  "core_name_of (normalize_query ''sdk  cli'') = ''sdk  cli'' \<and>
   spec_core_name (normalize_query ''sdk  cli'') = ''sdk cli''"
  by code_simp

section \<open>Candidate filter and ranker: proofs\<close>

lemma filter_matches_eq_filter:
  "filter_matches pr cat cn qp ms =
     filter (\<lambda>m. \<not> snd m < 85 \<and>
                  \<not> core_rule_discards pr cn (name_clean_of (fst m)) \<and>
                  \<not> keyword_rule_discards qp (name_clean_of (fst m)) (catalog_get cat (fst m))) ms"
  by (induction pr cat cn qp ms rule: filter_matches.induct) auto

lemma set_sort_by_score: "set (sort_by_score ms) = set ms"
  by (simp add: sort_by_score_def)

lemma length_sort_by_score: "length (sort_by_score ms) = length ms"
  by (simp add: sort_by_score_def)

lemma sorted_sort_by_score: "sorted (map (\<lambda>m. - snd m) (sort_by_score ms))"
  by (simp add: sort_by_score_def)

lemma sort_by_score_sorted: "sorted (map (\<lambda>m. - snd m) ms) \<Longrightarrow> sort_by_score ms = ms"
  by (simp add: sort_by_score_def sort_key_id_if_sorted)

lemma distinct_fst_sort_by_score:
  "distinct (map fst (sort_by_score ms)) = distinct (map fst ms)"
proof -
  have "mset (map fst (sort_by_score ms)) = mset (map fst ms)"
    by (simp add: sort_by_score_def)
  then show ?thesis by (rule mset_eq_imp_distinct_iff)
qed

lemma process_extract_scores:
  "m \<in> set (process_extract score query choices limit) \<Longrightarrow>
     fst m \<in> set choices \<and> snd m = score query (fst m)"
proof -
  assume "m \<in> set (process_extract score query choices limit)"
  then have "m \<in> set (sort_by_score (map (\<lambda>c. (c, score query c)) choices))"
    unfolding process_extract_def by (rule in_set_takeD)
  then show ?thesis by (auto simp: set_sort_by_score)
qed

lemma length_process_extract: "length (process_extract score query choices limit) \<le> limit"
  by (simp add: process_extract_def)

lemma sorted_process_extract:
  "sorted (map (\<lambda>m. - snd m) (process_extract score query choices limit))"
proof -
  have "sorted (take limit (map (\<lambda>m. - snd m)
          (sort_by_score (map (\<lambda>c. (c, score query c)) choices))))"
    using sorted_sort_by_score by (rule sorted_wrt_take)
  then show ?thesis by (simp add: process_extract_def take_map)
qed

lemma distinct_process_extract:
  "distinct choices \<Longrightarrow> distinct (map fst (process_extract score query choices limit))"
proof -
  assume d: "distinct choices"
  have "map fst (map (\<lambda>c. (c, score query c)) choices) = choices"
    by (simp add: comp_def)
  with d have "distinct (map fst (sort_by_score (map (\<lambda>c. (c, score query c)) choices)))"
    by (simp only: distinct_fst_sort_by_score)
  then have "distinct (take limit (map fst (sort_by_score (map (\<lambda>c. (c, score query c)) choices))))"
    by (rule distinct_take)
  then show ?thesis by (simp add: process_extract_def take_map)
qed

text \<open>The final sort of line 198 leaves the survivors in the order of the retained matches.\<close>

lemma find_matches_eq:
  "find_matches wr pr q cat =
     map fst (filter_matches pr cat (core_name_of (normalize_query q))
                (split_ws (normalize_query q))
                (process_extract wr (normalize_query q) (map fst cat) 5))"
proof -
  let ?ms = "process_extract wr (normalize_query q) (map fst cat) 5"
  let ?rs = "filter_matches pr cat (core_name_of (normalize_query q))
                (split_ws (normalize_query q)) ?ms"
  have "sorted (map (\<lambda>m. - snd m) ?rs)"
    unfolding filter_matches_eq_filter using sorted_process_extract by (rule sorted_filter)
  then have "sort_by_score ?rs = ?rs" by (rule sort_by_score_sorted)
  then show ?thesis by (simp add: find_matches_def Let_def)
qed

text \<open>
  C2. For every query and every catalog, \<open>find_matches\<close> returns at most 5 names, and every
  returned name scores at least 85 against the normalized query under the scorer used
  for ranking.
\<close>

theorem find_matches_top5:
  "length (find_matches wr pr q cat) \<le> 5 \<and>
   (\<forall>n \<in> set (find_matches wr pr q cat). 85 \<le> wr (normalize_query q) n)"
proof
  let ?ms = "process_extract wr (normalize_query q) (map fst cat) 5"
  have "length (find_matches wr pr q cat) \<le> length ?ms"
    by (simp add: find_matches_eq filter_matches_eq_filter)
  also have "\<dots> \<le> 5" by (rule length_process_extract)
  finally show "length (find_matches wr pr q cat) \<le> 5" .
  show "\<forall>n \<in> set (find_matches wr pr q cat). 85 \<le> wr (normalize_query q) n"
  proof
    fix n assume "n \<in> set (find_matches wr pr q cat)"
    then obtain m where m: "m \<in> set ?ms" "\<not> snd m < 85" "n = fst m"
      by (auto simp: find_matches_eq filter_matches_eq_filter)
    from process_extract_scores [OF m(1)] have "snd m = wr (normalize_query q) (fst m)" by simp
    with m show "85 \<le> wr (normalize_query q) n" by simp
  qed
qed

theorem find_matches_top5_witness:
  "find_matches ratio partial_ratio ''Redis''
     [(''redis1'', []), (''redis2'', []), (''redis3'', []), (''nginx'', []), (''redis4'', []),
      (''redis5'', []), (''redis6'', []), (''redis7'', [])]
     = [''redis1'', ''redis2'', ''redis3'', ''redis4'', ''redis5''] \<and>
   85 \<le> ratio (normalize_query ''Redis'') ''redis5''"
proof -
  let ?cat = "[(''redis1'', []), (''redis2'', []), (''redis3'', []), (''nginx'', []),
      (''redis4'', []), (''redis5'', []), (''redis6'', []), (''redis7'', [])]"
  have e: "find_matches ratio partial_ratio ''Redis'' ?cat
             = [''redis1'', ''redis2'', ''redis3'', ''redis4'', ''redis5'']"
    by code_simp
  from find_matches_top5 [of ratio partial_ratio "''Redis''" ?cat]
  have "\<forall>n \<in> set (find_matches ratio partial_ratio ''Redis'' ?cat).
          85 \<le> ratio (normalize_query ''Redis'') n" by blast
  with e show ?thesis by simp
qed

text \<open>
  C10. For every query and every catalog (a dict: no key twice), every returned name is a
  key of the catalog and no name is returned twice.
\<close>

theorem find_matches_keys:
  "distinct (map fst cat) \<Longrightarrow>
     set (find_matches wr pr q cat) \<subseteq> fst ` set cat \<and> distinct (find_matches wr pr q cat)"
proof
  let ?ms = "process_extract wr (normalize_query q) (map fst cat) 5"
  show "set (find_matches wr pr q cat) \<subseteq> fst ` set cat"
  proof
    fix n assume "n \<in> set (find_matches wr pr q cat)"
    then obtain m where m: "m \<in> set ?ms" "n = fst m"
      by (auto simp: find_matches_eq filter_matches_eq_filter)
    from process_extract_scores [OF m(1)] m(2) show "n \<in> fst ` set cat" by simp
  qed
  assume "distinct (map fst cat)"
  then have "distinct (map fst ?ms)" by (rule distinct_process_extract)
  then show "distinct (find_matches wr pr q cat)"
    unfolding find_matches_eq filter_matches_eq_filter by (rule distinct_map_filter)
qed

theorem find_matches_keys_witness:
  "distinct (find_matches ratio partial_ratio ''nginx'' [(''nginx'', [''1.27'']), (''nginz'', [])]) \<and>
   set (find_matches ratio partial_ratio ''nginx'' [(''nginx'', [''1.27'']), (''nginz'', [])])
     \<subseteq> {''nginx'', ''nginz''}"
proof -
  have d: "distinct (map fst [(''nginx'', [''1.27'']), (''nginz'', [])])" by simp
  from find_matches_keys [OF d, of ratio partial_ratio "''nginx''"] show ?thesis by simp
qed

lemma normalize_query_empty: "normalize_query [] = []"
  by (simp add: normalize_query_def aliases_def lower_def)

text \<open>The results on the empty catalog and on the empty query.\<close>

lemma find_matches_total:
  "find_matches wr pr q [] = [] \<and>
   find_matches wr pr [] cat =
     map fst (filter (\<lambda>m. 85 \<le> snd m) (process_extract wr [] (map fst cat) 5))"
proof
  show "find_matches wr pr q [] = []"
    by (simp add: find_matches_eq process_extract_def sort_by_score_def)
  have "\<not> core_rule_discards pr [] nc" for nc
    by (simp add: core_rule_discards_def)
  moreover have "\<not> keyword_rule_discards [] nc tags" for nc tags
    by (simp add: keyword_rule_discards_def should_continue_def list_ex_iff)
  moreover have "core_name_of [] = []" by (simp add: core_name_of_def)
  ultimately show "find_matches wr pr [] cat =
     map fst (filter (\<lambda>m. 85 \<le> snd m) (process_extract wr [] (map fst cat) 5))"
    by (simp add: find_matches_eq filter_matches_eq_filter normalize_query_empty not_less)
qed

text \<open>
  C4, as amended. A candidate that reached the keyword check is discarded by it exactly
  when some enforced keyword (\<open>cli\<close> or \<open>sdk\<close>) is among the query tokens and is found
  neither in the cleaned name nor in the tags joined and lowercased. So a keyword that is
  asked for and found nowhere discards the candidate, and a candidate is kept by this rule
  when every enforced keyword that is asked for is found in the cleaned name or the tags.
  In the loop, a single match is dropped exactly by the score floor, the core-name check
  or this check.
\<close>

theorem keyword_rule_spec:
  "(keyword_rule_discards query_parts name_clean tags \<longleftrightarrow>
      (\<exists>kw \<in> {''cli'', ''sdk''}. kw \<in> set query_parts \<and> \<not> is_substr kw name_clean \<and>
           \<not> is_substr kw (lower (join '' '' tags)))) \<and>
   (filter_matches pr cat cn query_parts [(name, score)] = [] \<longleftrightarrow>
      score < 85 \<or> core_rule_discards pr cn (name_clean_of name) \<or>
      keyword_rule_discards query_parts (name_clean_of name) (catalog_get cat name))"
  by (auto simp: keyword_rule_discards_def should_continue_def all_keywords_found_in_tags_def
      keywords_to_enforce_def Let_def)

theorem keyword_rule_spec_witness:
  "keyword_rule_discards (split_ws ''foo cli'') (name_clean_of ''foo'') [''latest''] \<and>
   \<not> keyword_rule_discards (split_ws ''foo cli'') (name_clean_of ''foo'') [''CLI-tools''] \<and>
   \<not> keyword_rule_discards (split_ws ''foo cli'') (name_clean_of ''foo-cli'') []"
proof -
  have a: "''cli'' \<in> set (split_ws ''foo cli'')" "''sdk'' \<notin> set (split_ws ''foo cli'')"
    by code_simp+
  have b: "\<not> is_substr ''cli'' (name_clean_of ''foo'')"
          "\<not> is_substr ''cli'' (lower (join '' '' [''latest'']))"
          "is_substr ''cli'' (lower (join '' '' [''CLI-tools'']))"
          "is_substr ''cli'' (name_clean_of ''foo-cli'')"
    by code_simp+
  from keyword_rule_spec [of "split_ws ''foo cli''" "name_clean_of ''foo''" "[''latest'']"]
       keyword_rule_spec [of "split_ws ''foo cli''" "name_clean_of ''foo''" "[''CLI-tools'']"]
       keyword_rule_spec [of "split_ws ''foo cli''" "name_clean_of ''foo-cli''" "[]"]
       a b
  show ?thesis by blast
qed

text \<open>
  C4 as stated fails in its second half: for the query \<open>foo cli sdk\<close> and the candidate
  \<open>foo-cli\<close> without tags, the keyword \<open>cli\<close> is among the query tokens and is found in the
  cleaned name, the core-name check keeps the candidate, and the keyword check still
  discards it, because \<open>sdk\<close> is asked for and found nowhere.
\<close>

theorem keyword_rule_counterexample:
  "''cli'' \<in> set (split_ws (normalize_query ''foo cli sdk'')) \<and>
   is_substr ''cli'' (name_clean_of ''foo-cli'') \<and>
   \<not> core_rule_discards partial_ratio (core_name_of (normalize_query ''foo cli sdk''))
        (name_clean_of ''foo-cli'') \<and>
   keyword_rule_discards (split_ws (normalize_query ''foo cli sdk''))
        (name_clean_of ''foo-cli'') (catalog_get [(''foo-cli'', [])] ''foo-cli'')"
  by code_simp

lemma lcs_refl: "lcs s s = length s"
  by (induction s) auto

lemma ratio_refl: "s \<noteq> [] \<Longrightarrow> ratio s s = 100"
proof -
  assume ne: "s \<noteq> []"
  define k where "k = length s"
  from ne have k: "0 < k" by (simp add: k_def)
  have e: "200 * k = 100 * (k + k)" by simp
  have "(100 * (k + k)) mod (k + k) = 0" by (rule mod_mult_self2_is_0)
  moreover from k have "(100 * (k + k)) div (k + k) = 100"
    by (intro nonzero_mult_div_cancel_right) simp
  ultimately have "(200 * k) mod (k + k) = 0" "(200 * k) div (k + k) = 100"
    by (simp_all only: e)
  then have "round_div (200 * k) (k + k) = 100" by (simp add: round_div_def)
  with ne show ?thesis by (simp add: ratio_def lcs_refl k_def)
qed

lemma partial_ratio_refl: "s \<noteq> [] \<Longrightarrow> partial_ratio s s = 100"
  by (simp add: partial_ratio_def windows_def ratio_refl)







text \<open>
  For the hyphenated name \<open>a-b\<close> the outcome of the core-name check is left to the partial
  ratio alone, whatever scorer is used.
\<close>

lemma core_rule_hyphen_name:
  "core_rule_discards pr (core_name_of (normalize_query ''a-b'')) (name_clean_of ''a-b'')
     = (pr ''a-b'' ''a b'' < 80)"
proof -
  have "core_name_of (normalize_query ''a-b'') = ''a-b''" "name_clean_of ''a-b'' = ''a b''"
    by code_simp+
  then show ?thesis by (simp add: core_rule_discards_def)
qed


section \<open>The ranker on untyped values: proofs\<close>

lemma score_all_pure:
  "\<forall>a b. score a b = Inr (sc a b) \<Longrightarrow>
     score_all score query cs = Inr (map (\<lambda>c. (c, sc query c)) cs)"
  by (induction cs) simp_all

lemma score_all_error:
  "score_all score query cs = Inl e \<Longrightarrow> \<exists>c. score query c = Inl e"
  by (induction cs) (auto split: sum.splits)

lemma process_extract_dyn_pure:
  assumes "\<forall>a b. score a b = Inr (sc a b)"
  shows "process_extract_dyn score query cs limit = Inr (process_extract sc query cs limit)"
  by (simp add: process_extract_dyn_def process_extract_def score_all_pure [OF assms])

lemma process_extract_dyn_error:
  "process_extract_dyn score query cs limit = Inl e \<Longrightarrow> \<exists>c. score query c = Inl e"
  by (auto simp: process_extract_dyn_def split: sum.splits dest: score_all_error)

lemma core_rule_dyn_pure:
  assumes "\<forall>a b. pratio a b = Inr (pr a b)"
  shows "core_rule_dyn pratio cn nc = Inr (core_rule_discards pr cn nc)"
proof -
  from assms have "pratio cn nc = Inr (pr cn nc)" by blast
  then show ?thesis by (simp add: core_rule_dyn_def core_rule_discards_def)
qed

lemma core_rule_dyn_error:
  "core_rule_dyn pratio cn nc = Inl e \<Longrightarrow> pratio cn nc = Inl e"
  by (auto simp: core_rule_dyn_def split: if_splits sum.splits)

lemma py_strs_typed: "py_strs (map JStr tags) = Inr tags"
  by (induction tags) simp_all

lemma py_join_typed: "py_join sep (JList (map JStr tags)) = Inr (join sep tags)"
  by (simp add: py_join_def py_strs_typed)

lemma py_get_catalog:
  "py_get (catalog_json cat) name (JList []) = Inr (JList (map JStr (catalog_get cat name)))"
proof -
  have "map_of (map (\<lambda>kv. (fst kv, JList (map JStr (snd kv)))) cat) name
          = map_option (\<lambda>tags. JList (map JStr tags)) (map_of cat name)"
    by (induction cat) auto
  then show ?thesis
    by (simp add: catalog_json_def catalog_get_def split: option.splits)
qed

lemma keyword_rule_dyn_typed:
  "keyword_rule_dyn qp nc (catalog_json cat) name
     = Inr (keyword_rule_discards qp nc (catalog_get cat name))"
  by (simp add: keyword_rule_dyn_def keyword_rule_discards_def py_get_catalog py_join_typed)

lemma filter_matches_dyn_pure:
  assumes "\<forall>a b. pratio a b = Inr (pr a b)"
  shows "filter_matches_dyn pratio (catalog_json cat) cn qp ms = Inr (filter_matches pr cat cn qp ms)"
proof (induction ms)
  case Nil
  show ?case by simp
next
  case (Cons m ms)
  obtain name score where m: "m = (name, score)" by (cases m)
  from Cons.IH show ?case
    by (simp add: m core_rule_dyn_pure [OF assms] keyword_rule_dyn_typed)
qed

lemma filter_matches_dyn_error:
  "filter_matches_dyn pratio (catalog_json cat) cn qp ms = Inl e \<Longrightarrow> \<exists>a b. pratio a b = Inl e"
proof (induction ms)
  case Nil
  then show ?case by simp
next
  case (Cons m ms)
  obtain name score where m: "m = (name, score)" by (cases m)
  from Cons.prems Cons.IH show ?case
    by (auto simp: m keyword_rule_dyn_typed split: if_splits sum.splits bool.splits
        dest: core_rule_dyn_error)
qed

lemma find_matches_dyn_pure:
  assumes "\<forall>a b. wratio a b = Inr (wr a b)" "\<forall>a b. pratio a b = Inr (pr a b)"
  shows "find_matches_dyn wratio pratio (JStr q) (catalog_json cat) = Inr (find_matches wr pr q cat)"
proof -
  have k: "py_keys (catalog_json cat) = Inr (map fst cat)"
    by (simp add: catalog_json_def comp_def)
  show ?thesis
    by (simp add: find_matches_dyn_def find_matches_def k Let_def normalize_query_def
        process_extract_dyn_pure [OF assms(1)] filter_matches_dyn_pure [OF assms(2)])
qed

lemma find_matches_dyn_error:
  assumes "find_matches_dyn wratio pratio (JStr q) (catalog_json cat) = Inl e"
  shows "\<exists>a b. wratio a b = Inl e \<or> pratio a b = Inl e"
proof -
  have k: "py_keys (catalog_json cat) = Inr (map fst cat)"
    by (simp add: catalog_json_def comp_def)
  from assms consider
      "process_extract_dyn wratio (normalize_query q) (map fst cat) 5 = Inl e"
    | ms where "filter_matches_dyn pratio (catalog_json cat) (core_name_of (normalize_query q))
                  (split_ws (normalize_query q)) ms = Inl e"
    by (auto simp: find_matches_dyn_def k Let_def normalize_query_def split: sum.splits)
  then show ?thesis
  proof cases
    case 1
    then show ?thesis by (blast dest: process_extract_dyn_error)
  next
    case 2
    then show ?thesis by (blast dest: filter_matches_dyn_error)
  qed
qed

text \<open>
  C7. For every query string and every catalog mapping, \<open>find_matches\<close> raises no error of
  its own and returns a list: on the untyped model, where a query that is no string, a
  catalog that is no dict and tags that cannot be joined all raise, the only error that
  can leave the function on a string and a \<open>dict[str, list[str]]\<close> is one raised by a
  library scorer, and with scorers that return on every pair of strings the function
  returns the list computed by \<open>find_matches\<close>. The empty catalog yields the empty list; the
  empty query yields the retained matches that score at least 85, with neither the
  core-name check nor the keyword check applied.
\<close>

theorem find_matches_no_error:
  "(find_matches_dyn wratio pratio (JStr q) (catalog_json cat) = Inl e \<longrightarrow>
      (\<exists>a b. wratio a b = Inl e \<or> pratio a b = Inl e)) \<and>
   ((\<forall>a b. wratio a b = Inr (wr a b)) \<and> (\<forall>a b. pratio a b = Inr (pr a b)) \<longrightarrow>
      find_matches_dyn wratio pratio (JStr q) (catalog_json cat) = Inr (find_matches wr pr q cat)) \<and>
   find_matches wr pr q [] = [] \<and>
   find_matches wr pr [] cat =
     map fst (filter (\<lambda>m. 85 \<le> snd m) (process_extract wr [] (map fst cat) 5))"
  using find_matches_dyn_error [of wratio pratio q cat e]
    find_matches_dyn_pure [of wratio wr pratio pr q cat]
    find_matches_total [of wr pr q cat]
  by blast

theorem find_matches_no_error_witness:
  "find_matches_dyn (\<lambda>a b. Inr (ratio a b)) (\<lambda>a b. Inr (partial_ratio a b)) (JStr ''Redis CLI'')
     (catalog_json [(''nginx'', []), (''redis ci'', [''7'', ''CLI-tools'']), (''redis-cli'', []),
                    (''redis cl'', [''7''])])
     = Inr [''redis ci'', ''redis-cli''] \<and>
   find_matches ratio partial_ratio ''redis'' [] = [] \<and>
   find_matches ratio partial_ratio [] [(''redis'', [''7''])] = []"
proof -
  let ?cat = "[(''nginx'', []), (''redis ci'', [''7'', ''CLI-tools'']), (''redis-cli'', []),
               (''redis cl'', [''7''])]"
  have e: "find_matches ratio partial_ratio ''Redis CLI'' ?cat = [''redis ci'', ''redis-cli'']"
    by code_simp
  have z: "map fst (filter (\<lambda>m. 85 \<le> snd m)
          (process_extract ratio [] (map fst [(''redis'', [''7''])]) 5)) = []"
    by code_simp
  from find_matches_no_error [of "\<lambda>a b. Inr (ratio a b)" "\<lambda>a b. Inr (partial_ratio a b)"
         "''Redis CLI''" ?cat _ ratio partial_ratio]
  have "find_matches_dyn (\<lambda>a b. Inr (ratio a b)) (\<lambda>a b. Inr (partial_ratio a b)) (JStr ''Redis CLI'')
          (catalog_json ?cat) = Inr (find_matches ratio partial_ratio ''Redis CLI'' ?cat)"
    by blast
  moreover from find_matches_no_error [of _ _ "''redis''" "[(''redis'', [''7''])]" _ ratio partial_ratio]
  have "find_matches ratio partial_ratio ''redis'' [] = []"
    and "find_matches ratio partial_ratio [] [(''redis'', [''7''])] =
     map fst (filter (\<lambda>m. 85 \<le> snd m) (process_extract ratio [] (map fst [(''redis'', [''7''])]) 5))"
    by blast+
  ultimately show ?thesis using e z by (simp only: simp_thms)
qed

text \<open>The failing branches are live: a query that is no string, a tag list that is a number.\<close>

lemma find_matches_dyn_ill_typed:
  "find_matches_dyn (\<lambda>a b. Inr (ratio a b)) (\<lambda>a b. Inr (partial_ratio a b)) (JNum 3)
     (catalog_json [(''redis'', [])]) = Inl AttributeError \<and>
   find_matches_dyn (\<lambda>a b. Inr (ratio a b)) (\<lambda>a b. Inr (partial_ratio a b)) (JStr ''redis cli'')
     (JObj [(''redis ci'', JNum 7)]) = Inl TypeError"
  by code_simp

section \<open>Catalog extractor: proofs\<close>

lemma dict_set_sum:
  "sum_list (map snd (dict_set d k (dict_get d k 0 + 1))) = sum_list (map snd d) + (1::int)"
  by (induction d) auto

lemma is_str_hashable: "is_str v \<Longrightarrow> hashable v"
  by (cases v) auto

lemma extract_item_nameless:
  "well_formed_item item \<Longrightarrow> \<not> has_name item \<Longrightarrow> extract_item item s = Inr s"
  by (cases item) (auto simp: extract_item_def split: option.splits)

lemma extract_item_named:
  assumes "well_formed_item item" "has_name item"
  shows "\<exists>idx' k. extract_item item s =
           Inr (idx', dict_set (snd s) k (dict_get (snd s) k 0 + 1))"
proof -
  from assms(1) obtain kvs where item: "item = JObj kvs" by (cases item) auto
  from assms item obtain nm where nm: "map_of kvs ''name'' = Some nm" "truthy nm" "is_str nm"
    by (auto split: option.splits)
  then have hn: "hashable nm" by (simp add: is_str_hashable)
  define ty where "ty = (case map_of kvs ''type'' of None \<Rightarrow> JStr ''Unknown'' | Some v \<Rightarrow> v)"
  from assms(1) item have "hashable ty"
    by (auto simp: ty_def is_str_hashable split: option.splits)
  with nm hn item show ?thesis
    by (auto simp: extract_item_def ty_def Let_def split: option.splits)
qed

lemma extract_loop_wf:
  "list_all well_formed_item items \<Longrightarrow>
     \<exists>s'. extract_loop items s = Inr s' \<and>
          extract_loop (filter has_name items) s = Inr s' \<and>
          sum_list (map snd (snd s')) = sum_list (map snd (snd s)) + int (length (filter has_name items))"
proof (induction items arbitrary: s)
  case Nil
  then show ?case by simp
next
  case (Cons item items)
  then have wf: "well_formed_item item" and wfs: "list_all well_formed_item items" by simp_all
  show ?case
  proof (cases "has_name item")
    case False
    with wf have "extract_item item s = Inr s" by (rule extract_item_nameless)
    with Cons.IH [OF wfs, of s] False show ?thesis by simp
  next
    case True
    from extract_item_named [OF wf True, of s] obtain idx' k
      where step: "extract_item item s = Inr (idx', dict_set (snd s) k (dict_get (snd s) k 0 + 1))"
      by blast
    let ?s1 = "(idx', dict_set (snd s) k (dict_get (snd s) k 0 + 1))"
    from Cons.IH [OF wfs, of ?s1] obtain s' where
      s': "extract_loop items ?s1 = Inr s'" "extract_loop (filter has_name items) ?s1 = Inr s'"
          "sum_list (map snd (snd s')) = sum_list (map snd (snd ?s1)) + int (length (filter has_name items))"
      by blast
    from s'(3) have "sum_list (map snd (snd s'))
        = sum_list (map snd (snd s)) + int (length (filter has_name (item # items)))"
      using True by (simp add: dict_set_sum)
    with step s'(1,2) True show ?thesis by simp
  qed
qed

lemma extract_image_names_list:
  "extract_loop items ([], []) = Inr s \<Longrightarrow> extract_image_names (envelope (JList items)) = Inr s"
  by (simp add: extract_image_names_def extract_try_def envelope_def)

text \<open>
  C6. For every well-formed list of raw items (names may repeat), \<open>extract_image_names\<close>
  returns an index and type statistics; the values of the statistics sum to the number
  of items with a non-empty name; and the items without a name contribute to neither:
  removing them from the list gives the same index and the same statistics.
\<close>

theorem extract_stats_sum:
  assumes "list_all well_formed_item items"
  shows "\<exists>image_data stats.
           extract_image_names (envelope (JList items)) = Inr (image_data, stats) \<and>
           sum_list (map snd stats) = int (length (filter has_name items)) \<and>
           extract_image_names (envelope (JList (filter has_name items))) = Inr (image_data, stats)"
proof -
  from extract_loop_wf [OF assms, of "([], [])"] obtain s' where
    s': "extract_loop items ([], []) = Inr s'"
        "extract_loop (filter has_name items) ([], []) = Inr s'"
        "sum_list (map snd (snd s')) = int (length (filter has_name items))"
    by auto
  from s'(1,2) have "extract_image_names (envelope (JList items)) = Inr (fst s', snd s')"
    "extract_image_names (envelope (JList (filter has_name items))) = Inr (fst s', snd s')"
    by (simp_all add: extract_image_names_list)
  with s'(3) show ?thesis by blast
qed

theorem extract_stats_sum_witness:
  "extract_image_names (envelope (JList
     [JObj [(''name'', JStr ''redis''), (''type'', JStr ''IMAGE''), (''tagNames'', JList [JStr ''7''])],
      JObj [(''type'', JStr ''IMAGE'')],
      JObj [(''name'', JStr ''nginx''), (''tagNames'', JNull)],
      JObj [(''name'', JStr ''redis''), (''type'', JStr ''IMAGE''),
            (''tagNames'', JList [JStr ''7'', JStr ''7-fips''])]]))
   = Inr ([(JStr ''redis'', JList [JStr ''7'', JStr ''7-fips'']), (JStr ''nginx'', JList [])],
          [(JStr ''IMAGE'', 2), (JStr ''Unknown'', 1)]) \<and>
   sum_list (map snd [(JStr ''IMAGE'', 2 :: int), (JStr ''Unknown'', 1)]) = 3"
proof -
  let ?items = "[JObj [(''name'', JStr ''redis''), (''type'', JStr ''IMAGE''),
                       (''tagNames'', JList [JStr ''7''])],
      JObj [(''type'', JStr ''IMAGE'')],
      JObj [(''name'', JStr ''nginx''), (''tagNames'', JNull)],
      JObj [(''name'', JStr ''redis''), (''type'', JStr ''IMAGE''),
            (''tagNames'', JList [JStr ''7'', JStr ''7-fips''])]]"
  have wf: "list_all well_formed_item ?items" by simp
  have n: "int (length (filter has_name ?items)) = 3" by simp
  have e: "extract_image_names (envelope (JList ?items))
     = Inr ([(JStr ''redis'', JList [JStr ''7'', JStr ''7-fips'']), (JStr ''nginx'', JList [])],
            [(JStr ''IMAGE'', 2), (JStr ''Unknown'', 1)])"
    by code_simp
  from extract_stats_sum [OF wf] obtain image_data stats where
    r: "extract_image_names (envelope (JList ?items)) = Inr (image_data, stats)"
       "sum_list (map snd stats) = int (length (filter has_name ?items))"
    by blast
  from r(1) e have "stats = [(JStr ''IMAGE'', 2), (JStr ''Unknown'', 1)]" by simp
  with r(2) n e show ?thesis by simp
qed

text \<open>
  C1 does not hold of the code. Only \<open>KeyError\<close> and \<open>TypeError\<close> are turned into
  \<open>DHISearchError\<close>. An item that is not a record has no method \<open>get\<close>: for items
  \<open>["redis"]\<close>, or items given as the string \<open>"redis"\<close>, the \<open>AttributeError\<close> leaves the
  function as it is. An empty dict in the place of the item list is iterated without any
  error, and a \<open>tagNames\<close> that is a number is stored in the index as it is.
\<close>

theorem extract_nonrecord_items:
  "extract_image_names (envelope (JList [JStr ''redis''])) = Inl AttributeError \<and>
   extract_image_names (envelope (JStr ''redis'')) = Inl AttributeError \<and>
   extract_image_names (envelope (JObj [])) = Inr ([], []) \<and>
   extract_image_names (envelope (JList [JObj [(''name'', JStr ''redis''), (''tagNames'', JNum 5)]]))
     = Inr ([(JStr ''redis'', JNum 5)], [(JStr ''Unknown'', 1)])"
  by code_simp

text \<open>What does hold: a missing or non-dict nesting level is reported as \<open>DHISearchError\<close>.\<close>

lemma extract_missing_nesting:
  "py_getitem catalog_data ''data'' = Inl e \<Longrightarrow> extract_image_names catalog_data = Inl DHISearchError"
  by (cases catalog_data) (auto simp: extract_image_names_def extract_try_def split: option.splits)

end
